theory Spec2Isabelle
  imports Main "HOL-Library.Sublist"
begin

section \<open>File names and extension buckets\<close>

text \<open>
  The program (\<^verbatim>\<open>task_1.py\<close>) moves every regular file found below a source directory
  into \<^verbatim>\<open>dst_root/<bucket>/<name>\<close>, where the bucket is computed from the file name by
  \<^verbatim>\<open>item.suffix.lower().lstrip(".")\<close>, with \<^verbatim>\<open>no_extension\<close> for an empty result.

  Strings are byte lists (UTF-8). \<^verbatim>\<open>str.lower\<close> itself is a function of the Python
  runtime and a parameter of a run (see \<open>str_lower\<close> below). \<open>lower\<close> is what it does on
  ASCII text, where a byte in \<^verbatim>\<open>A..Z\<close> gets bit 5 set and every other byte is left alone;
  it is the instance used in the examples.
\<close>

fun lower_char :: "char \<Rightarrow> char" where
  "lower_char (Char b0 b1 b2 b3 b4 b5 b6 b7) =
     (let n = (of_char (Char b0 b1 b2 b3 b4 b5 b6 b7) :: nat)
      in if 65 \<le> n \<and> n \<le> 90 then Char b0 b1 b2 b3 b4 True b6 b7
         else Char b0 b1 b2 b3 b4 b5 b6 b7)"

definition lower :: "string \<Rightarrow> string" where
  "lower s = map lower_char s"

text \<open>
  \<^verbatim>\<open>str.rfind(c)\<close>: the highest index at which \<open>c\<close> occurs, \<open>-1\<close> when it does not.
\<close>

definition rfind :: "string \<Rightarrow> char \<Rightarrow> int" where
  "rfind s c =
     (if c \<in> set s
      then int (length s) - 1 - int (length (takeWhile (\<lambda>x. x \<noteq> c) (rev s)))
      else - 1)"

text \<open>
  \<^verbatim>\<open>PurePath.suffix\<close>:
  \<^verbatim>\<open>i = name.rfind('.'); return name[i:] if 0 < i < len(name) - 1 else ''\<close>.
\<close>

definition suffix_str :: "string \<Rightarrow> string" where
  "suffix_str name =
     (let i = rfind name CHR ''.''
      in if 0 < i \<and> i < int (length name) - 1 then drop (nat i) name else [])"

definition lstrip :: "char \<Rightarrow> string \<Rightarrow> string" where
  "lstrip c s = dropWhile (\<lambda>x. x = c) s"

section \<open>The file system\<close>

text \<open>
  A path is the list of its components below the root; \<^verbatim>\<open>p / name\<close> is \<open>p @ [name]\<close> and
  \<^verbatim>\<open>p.name\<close> is \<open>last p\<close>. Paths are canonical: absolute, without dot segments, and the
  file system holds no symbolic links, so that \<^verbatim>\<open>Path.resolve\<close> returns its argument.
  An entry is a directory, a regular file with its content, or something else (a device,
  a socket, a broken link), for which both \<^verbatim>\<open>is_dir\<close> and \<^verbatim>\<open>is_file\<close> are false.
  The file system is a finite table from paths to entries.
\<close>

type_synonym path = "string list"

datatype node = Dir | File nat | Other

type_synonym fs = "(path \<times> node) list"

definition lookup :: "fs \<Rightarrow> path \<Rightarrow> node option" where
  "lookup fs p = map_of fs p"

definition remove :: "fs \<Rightarrow> path \<Rightarrow> fs" where
  "remove fs p = filter (\<lambda>(q, n). q \<noteq> p) fs"

definition store :: "fs \<Rightarrow> path \<Rightarrow> node \<Rightarrow> fs" where
  "store fs p n = (p, n) # remove fs p"

definition is_dir :: "fs \<Rightarrow> path \<Rightarrow> bool" where
  "is_dir fs p \<longleftrightarrow> lookup fs p = Some Dir"

definition is_file :: "fs \<Rightarrow> path \<Rightarrow> bool" where
  "is_file fs p \<longleftrightarrow> (case lookup fs p of Some (File c) \<Rightarrow> True | _ \<Rightarrow> False)"

definition exists_path :: "fs \<Rightarrow> path \<Rightarrow> bool" where
  "exists_path fs p \<longleftrightarrow> lookup fs p \<noteq> None"

definition resolve :: "path \<Rightarrow> path" where
  "resolve p = p"

text \<open>
  The subclasses of \<^verbatim>\<open>OSError\<close> that the system calls of the program raise;
  \<^verbatim>\<open>ShutilError\<close> is \<^verbatim>\<open>shutil.Error\<close>, itself a subclass of \<^verbatim>\<open>OSError\<close>.
\<close>

datatype os_error =
  FileNotFoundError | FileExistsError | NotADirectoryError | IsADirectoryError
  | PermissionError | ShutilError

text \<open>
  What \<^verbatim>\<open>copy2\<close> does when \<^verbatim>\<open>shutil.move\<close> falls back on it: it copies the file, or it
  fails before the target is opened, or it fails after that, leaving the target as a
  regular file with some content.
\<close>

datatype copy_outcome = CopyDone | CopyRefused os_error | CopyBroken nat os_error

text \<open>
  What the operating system refuses for reasons outside the table (permissions, locks,
  read-only or full devices, a target on another device) is a parameter of a run: whether
  the source path given to \<^verbatim>\<open>main\<close> can be examined (\<^verbatim>\<open>stat\<close>), which directories can be
  listed, which can be created, which renames go through, what a copy does, which files
  can be unlinked. The \<^verbatim>\<open>str.lower\<close> of the runtime is a parameter as well. Inside the
  walk, the entries of a directory that could be listed are taken to be examinable.
\<close>

record os_env =
  str_lower :: "string \<Rightarrow> string"
  can_stat :: "path \<Rightarrow> bool"
  can_list :: "path \<Rightarrow> bool"
  can_mkdir :: "path \<Rightarrow> bool"
  can_move :: "path \<Rightarrow> path \<Rightarrow> bool"
  copy_to :: "path \<Rightarrow> path \<Rightarrow> copy_outcome"
  can_unlink :: "path \<Rightarrow> bool"

subsection \<open>The bucket of a file name\<close>

text \<open>
  Lines 44--46 of \<^verbatim>\<open>copy_and_sort\<close>: the bucket name of a file name, with the
  \<^verbatim>\<open>str.lower\<close> of the run.
\<close>

definition bucket_of :: "os_env \<Rightarrow> string \<Rightarrow> string" where
  "bucket_of env name =
     (let ext = lstrip CHR ''.'' (str_lower env (suffix_str name))
      in if ext = [] then ''no_extension'' else ext)"

text \<open>
  What the statements about buckets need of \<^verbatim>\<open>str.lower\<close>: a dot in front stays in
  front, only the empty string becomes empty, and no dot appears where there was none.
  Python's \<^verbatim>\<open>str.lower\<close> maps every character by itself, but for a capital sigma, whose
  image depends on the letters around it; a dot is no letter, and only a dot becomes a
  dot.
\<close>

definition lowercase_like :: "(string \<Rightarrow> string) \<Rightarrow> bool" where
  "lowercase_like lc \<longleftrightarrow>
     (\<forall>s. lc (CHR ''.'' # s) = CHR ''.'' # lc s) \<and>
     (\<forall>s. lc s = [] \<longleftrightarrow> s = []) \<and>
     (\<forall>s. CHR ''.'' \<notin> set s \<longrightarrow> CHR ''.'' \<notin> set (lc s))"

subsection \<open>The extension in the words of the specification\<close>

text \<open>
  The specification describes the extension as the lowercased substring after the last
  dot of the base name, empty when the name has no dot.
\<close>

definition after_last_dot :: "string \<Rightarrow> string" where
  "after_last_dot name =
     (if CHR ''.'' \<in> set name then rev (takeWhile (\<lambda>x. x \<noteq> CHR ''.'') (rev name)) else [])"

definition spec_extension :: "os_env \<Rightarrow> string \<Rightarrow> string" where
  "spec_extension env name = str_lower env (after_last_dot name)"

definition spec_bucket :: "os_env \<Rightarrow> string \<Rightarrow> string" where
  "spec_bucket env name =
     (if spec_extension env name = [] then ''no_extension'' else spec_extension env name)"

text \<open>
  The last dot of a name is \<^emph>\<open>inner\<close> when it is neither the first nor the last
  character of the name: something stands before it and something after it.
\<close>

definition inner_dot :: "string \<Rightarrow> bool" where
  "inner_dot name \<longleftrightarrow>
     CHR ''.'' \<in> set name \<and> after_last_dot name \<noteq> [] \<and>
     Suc (length (after_last_dot name)) < length name"

text \<open>\<^verbatim>\<open>Path.iterdir\<close>: the names in a directory, read at once when the loop starts.\<close>

definition children :: "fs \<Rightarrow> path \<Rightarrow> string list" where
  "children fs p = remdups (map (\<lambda>(q, n). last q) (filter (\<lambda>(q, n). q \<noteq> [] \<and> butlast q = p) fs))"

definition iterdir :: "os_env \<Rightarrow> fs \<Rightarrow> path \<Rightarrow> os_error + string list" where
  "iterdir env fs p =
     (case lookup fs p of
        None \<Rightarrow> Inl FileNotFoundError
      | Some Dir \<Rightarrow> if can_list env p then Inr (children fs p) else Inl PermissionError
      | Some _ \<Rightarrow> Inl NotADirectoryError)"

text \<open>\<^verbatim>\<open>os.mkdir\<close>: one directory, whose parent must be a directory.\<close>

definition os_mkdir :: "os_env \<Rightarrow> fs \<Rightarrow> path \<Rightarrow> os_error + fs" where
  "os_mkdir env fs p =
     (if p = [] then
        (if lookup fs p = None then Inl FileNotFoundError else Inl FileExistsError)
      else case lookup fs (butlast p) of
        None \<Rightarrow> Inl FileNotFoundError
      | Some Dir \<Rightarrow>
          if lookup fs p \<noteq> None then Inl FileExistsError
          else if can_mkdir env p then Inr (store fs p Dir)
          else Inl PermissionError
      | Some _ \<Rightarrow> Inl NotADirectoryError)"

text \<open>
  \<^verbatim>\<open>Path.mkdir(parents=True, exist_ok=True)\<close>, as pathlib writes it:
  \<^verbatim>\<open>
  try: os.mkdir(self)
  except FileNotFoundError:
      if not parents or self.parent == self: raise
      self.parent.mkdir(parents=True, exist_ok=True)
      self.mkdir(parents=False, exist_ok=exist_ok)
  except OSError:
      if not exist_ok or not self.is_dir(): raise
  \<close>
  The result is the file system reached and the error raised, if any: a failure can
  leave behind the parents already created.
\<close>

definition mkdir_single :: "os_env \<Rightarrow> fs \<Rightarrow> path \<Rightarrow> fs \<times> os_error option" where
  "mkdir_single env fs p =
     (case os_mkdir env fs p of
        Inr fs' \<Rightarrow> (fs', None)
      | Inl FileNotFoundError \<Rightarrow> (fs, Some FileNotFoundError)
      | Inl e \<Rightarrow> if is_dir fs p then (fs, None) else (fs, Some e))"

function mkdir :: "os_env \<Rightarrow> fs \<Rightarrow> path \<Rightarrow> fs \<times> os_error option" where
  "mkdir env fs p =
     (case os_mkdir env fs p of
        Inr fs' \<Rightarrow> (fs', None)
      | Inl FileNotFoundError \<Rightarrow>
          if p = [] then (fs, Some FileNotFoundError)
          else (case mkdir env fs (butlast p) of
                  (fs1, Some e) \<Rightarrow> (fs1, Some e)
                | (fs1, None) \<Rightarrow> mkdir_single env fs1 p)
      | Inl e \<Rightarrow> if is_dir fs p then (fs, None) else (fs, Some e))"
  by pat_completeness auto
termination
  by (relation "measure (\<lambda>(env, fs, p). length p)") auto

declare mkdir.simps [simp del]

text \<open>
  \<^verbatim>\<open>os.rename\<close> of an entry that is not a directory (the program moves regular files
  only). An existing target that is not a directory is replaced, as on POSIX; renaming a
  path to itself does nothing.
\<close>

definition os_rename :: "os_env \<Rightarrow> fs \<Rightarrow> path \<Rightarrow> path \<Rightarrow> os_error + fs" where
  "os_rename env fs a b =
     (case lookup fs a of
        None \<Rightarrow> Inl FileNotFoundError
      | Some n \<Rightarrow>
          if b = [] then Inl IsADirectoryError
          else case lookup fs (butlast b) of
            None \<Rightarrow> Inl FileNotFoundError
          | Some Dir \<Rightarrow>
              if a = b then Inr fs
              else if is_dir fs b then Inl IsADirectoryError
              else if can_move env a b then Inr (store (remove fs a) b n)
              else Inl PermissionError
          | Some _ \<Rightarrow> Inl NotADirectoryError)"

text \<open>
  The fallback of \<^verbatim>\<open>shutil.move\<close> for a regular file whose rename failed:
  \<^verbatim>\<open>copy_function(src, real_dst); os.unlink(src)\<close>. When it fails, the source is still
  there, and the target may have been written: with what the broken copy left, or with
  the whole file when only the unlink was refused.
\<close>

definition copy_unlink :: "os_env \<Rightarrow> fs \<Rightarrow> path \<Rightarrow> path \<Rightarrow> (os_error \<times> fs) + fs" where
  "copy_unlink env fs a b =
     (case lookup fs a of
        None \<Rightarrow> Inl (FileNotFoundError, fs)
      | Some n \<Rightarrow>
          if b = [] then Inl (IsADirectoryError, fs)
          else case lookup fs (butlast b) of
            None \<Rightarrow> Inl (FileNotFoundError, fs)
          | Some Dir \<Rightarrow>
              if a = b then Inl (ShutilError, fs)
              else if is_dir fs b then Inl (IsADirectoryError, fs)
              else (case copy_to env a b of
                      CopyRefused e \<Rightarrow> Inl (e, fs)
                    | CopyBroken c e \<Rightarrow> Inl (e, store fs b (File c))
                    | CopyDone \<Rightarrow>
                        if can_unlink env a then Inr (store (remove fs a) b n)
                        else Inl (PermissionError, store fs b n))
          | Some _ \<Rightarrow> Inl (NotADirectoryError, fs))"

definition rename_or_copy :: "os_env \<Rightarrow> fs \<Rightarrow> path \<Rightarrow> path \<Rightarrow> (os_error \<times> fs) + fs" where
  "rename_or_copy env fs a b =
     (case os_rename env fs a b of
        Inr fs' \<Rightarrow> Inr fs'
      | Inl e \<Rightarrow> copy_unlink env fs a b)"

text \<open>
  \<^verbatim>\<open>shutil.move(src, dst)\<close> for a regular file \<^verbatim>\<open>src\<close>:
  \<^verbatim>\<open>
  real_dst = dst
  if os.path.isdir(dst):
      if _samefile(src, dst): os.rename(src, dst); return
      real_dst = os.path.join(dst, _basename(src))
      if os.path.exists(real_dst): raise Error(...)
  try: os.rename(src, real_dst)
  except OSError: copy_function(src, real_dst); os.unlink(src)
  return real_dst
  \<close>
  A failure returns the error together with the file system it leaves.
  \<open>real_dst fs a b\<close> is the place the entry \<open>a\<close> is put when asked to move it to \<open>b\<close>.
\<close>

definition real_dst :: "fs \<Rightarrow> path \<Rightarrow> path \<Rightarrow> path" where
  "real_dst fs a b = (if is_dir fs b \<and> a \<noteq> b then b @ [last a] else b)"

definition move :: "os_env \<Rightarrow> fs \<Rightarrow> path \<Rightarrow> path \<Rightarrow> (os_error \<times> fs) + fs" where
  "move env fs a b =
     (if is_dir fs b then
        (if a = b then
           (case os_rename env fs a b of Inl e \<Rightarrow> Inl (e, fs) | Inr fs' \<Rightarrow> Inr fs')
         else let real_dst = b @ [last a]
              in if exists_path fs real_dst then Inl (ShutilError, fs)
                 else rename_or_copy env fs a real_dst)
      else rename_or_copy env fs a b)"

section \<open>The sorter\<close>

text \<open>
  What a run does is recorded as a list of events. \<open>DirFailed\<close> and \<open>MoveFailed\<close> are the
  two diagnostics of \<^verbatim>\<open>copy_and_sort\<close> (the path and the cause they print);
  \<open>SourceInvalid\<close>, \<open>DestUncreatable\<close> and \<open>Done\<close> are the three messages of \<^verbatim>\<open>main\<close>;
  \<open>Traceback\<close> is the end of a run by an exception that no handler catches.
  \<open>Visit\<close>, \<open>Skip\<close> and \<open>Moved\<close> print nothing: they mark that the loop over a directory
  was entered, that an entry was skipped as the destination, and that a move succeeded
  (with the place the file was put, the value \<^verbatim>\<open>shutil.move\<close> returns).
\<close>

datatype event =
  Visit path | Skip path | Moved path path
  | MoveFailed path os_error | DirFailed path os_error
  | SourceInvalid path | DestUncreatable path os_error | Done | Traceback os_error

text \<open>
  \<^verbatim>\<open>copy_and_sort(src, dst_root)\<close>. \<open>for_items\<close> is the body of the \<^verbatim>\<open>for\<close> loop over the
  names that \<^verbatim>\<open>iterdir\<close> returned; its third result is the \<^verbatim>\<open>OSError\<close> that left the
  loop, if one did (only \<^verbatim>\<open>mkdir\<close> can raise one there: the moves have a handler of
  their own, and a recursive call catches its errors itself). The first argument bounds
  the depth of the recursion, as the recursion limit of the interpreter does: a call that
  would go deeper returns \<open>None\<close>, which stands for the \<^verbatim>\<open>RecursionError\<close> that Python
  raises there. It is no \<^verbatim>\<open>OSError\<close>: no handler of the program catches it, and it ends
  the run.
  \<open>emit tr r\<close> puts the events \<open>tr\<close> in front of those of the rest \<open>r\<close> of the loop.
\<close>

definition emit ::
    "event list \<Rightarrow> (fs \<times> event list \<times> os_error option) option
       \<Rightarrow> (fs \<times> event list \<times> os_error option) option" where
  "emit tr r = (case r of None \<Rightarrow> None | Some (fs', tr', exc) \<Rightarrow> Some (fs', tr @ tr', exc))"

fun for_items ::
    "nat \<Rightarrow> os_env \<Rightarrow> path \<Rightarrow> path \<Rightarrow> string list \<Rightarrow> fs \<Rightarrow> (fs \<times> event list \<times> os_error option) option"
  and copy_and_sort ::
    "nat \<Rightarrow> os_env \<Rightarrow> path \<Rightarrow> path \<Rightarrow> fs \<Rightarrow> (fs \<times> event list) option"
where
  "for_items n env src dst_root [] fs = Some (fs, [], None)"
| "for_items n env src dst_root (x # xs) fs =
     (let item = src @ [x] in
      if is_dir fs item then
        (if resolve item = resolve dst_root then
           emit [Skip item] (for_items n env src dst_root xs fs)
         else
           (case copy_and_sort n env item dst_root fs of
              None \<Rightarrow> None
            | Some (fs1, tr1) \<Rightarrow> emit tr1 (for_items n env src dst_root xs fs1)))
      else if is_file fs item then
        (let ext = bucket_of env (last item);
             target_dir = dst_root @ [ext]
         in case mkdir env fs target_dir of
              (fs1, Some e) \<Rightarrow> Some (fs1, [], Some e)
            | (fs1, None) \<Rightarrow>
                (let target_file = target_dir @ [last item]
                 in case move env fs1 item target_file of
                      Inl (e, fs2) \<Rightarrow>
                        emit [MoveFailed item e] (for_items n env src dst_root xs fs2)
                    | Inr fs2 \<Rightarrow>
                        emit [Moved item (real_dst fs1 item target_file)]
                          (for_items n env src dst_root xs fs2)))
      else for_items n env src dst_root xs fs)"
| "copy_and_sort 0 env src dst_root fs = None"
| "copy_and_sort (Suc n) env src dst_root fs =
     (case iterdir env fs src of
        Inl e \<Rightarrow> Some (fs, [DirFailed src e])
      | Inr names \<Rightarrow>
          (case for_items n env src dst_root names fs of
             None \<Rightarrow> None
           | Some (fs', tr, None) \<Rightarrow> Some (fs', Visit src # tr)
           | Some (fs', tr, Some e) \<Rightarrow> Some (fs', Visit src # tr @ [DirFailed src e])))"


section \<open>Notions used in the statements and proofs\<close>



subsection \<open>A platform and a small file system for the examples\<close>

definition allow_all :: os_env where
  "allow_all =
     \<lparr>str_lower = lower, can_stat = (\<lambda>p. True),
      can_list = (\<lambda>p. True), can_mkdir = (\<lambda>p. True), can_move = (\<lambda>a b. True),
      copy_to = (\<lambda>a b. CopyDone), can_unlink = (\<lambda>p. True)\<rparr>"

definition demo_fs :: fs where
  "demo_fs =
     [([], Dir), ([''o''], Dir), ([''s''], Dir), ([''s'', ''a.txt''], File 1),
      ([''s'', ''b.md''], File 2), ([''s'', ''d''], Dir), ([''s'', ''d'', ''c.TXT''], File 3)]"

subsection \<open>What a run may change\<close>

text \<open>
  \<open>zone dst a q\<close>: the path \<open>q\<close> is at or below the entry \<open>a\<close> and, unless \<open>a\<close> itself lies
  inside the destination, outside the destination. These are the entries that handling
  \<open>a\<close> may take away.

  \<open>frame dst Z fs fs'\<close>: directories stay; new directories are children of the
  destination; an entry outside \<open>Z\<close> that is not a directory stays one, and a file
  stays a file; and nothing is created or changed outside the destination.
\<close>

definition zone :: "path \<Rightarrow> path \<Rightarrow> path \<Rightarrow> bool" where
  "zone dst a q \<longleftrightarrow> prefix a q \<and> (strict_prefix dst a \<or> \<not> prefix dst q)"

definition frame :: "path \<Rightarrow> (path \<Rightarrow> bool) \<Rightarrow> fs \<Rightarrow> fs \<Rightarrow> bool" where
  "frame dst Z fs fs' \<longleftrightarrow>
     (\<forall>q. is_dir fs q \<longrightarrow> is_dir fs' q) \<and>
     (\<forall>q. is_dir fs' q \<longrightarrow> is_dir fs q \<or> (\<exists>e. q = dst @ [e])) \<and>
     (\<forall>q. \<not> Z q \<and> exists_path fs q \<and> \<not> is_dir fs q \<longrightarrow>
          exists_path fs' q \<and> \<not> is_dir fs' q \<and> (is_file fs q \<longrightarrow> is_file fs' q)) \<and>
     (\<forall>q. \<not> prefix dst q \<and> exists_path fs' q \<longrightarrow> lookup fs' q = lookup fs q)"

subsection \<open>Depth\<close>

text \<open>
  \<open>depth_below fs p\<close>: the number of levels of directories below \<open>p\<close>.
  \<open>deep dst fs p k\<close>: every directory below \<open>p\<close> that can be reached from \<open>p\<close> without
  going through the destination is at most \<open>k\<close> levels down.
  \<open>pending n dst fs c\<close>: the entry \<open>c\<close>, still to be handled by the loop, exists, and if the
  loop is to recurse into it, the depth \<open>n\<close> left is enough for what lies below it.
\<close>

definition depth_below :: "fs \<Rightarrow> path \<Rightarrow> nat" where
  "depth_below fs p =
     fold max (map (\<lambda>(q, n). length q - length p) (filter (\<lambda>(q, n). is_dir fs q \<and> prefix p q) fs)) 0"

definition deep :: "path \<Rightarrow> fs \<Rightarrow> path \<Rightarrow> nat \<Rightarrow> bool" where
  "deep dst fs p k \<longleftrightarrow>
     (\<forall>q. is_dir fs q \<and> strict_prefix p q \<and> (\<forall>r. strict_prefix p r \<and> prefix r q \<longrightarrow> r \<noteq> dst)
          \<longrightarrow> length q \<le> length p + k)"

definition pending :: "nat \<Rightarrow> path \<Rightarrow> fs \<Rightarrow> path \<Rightarrow> bool" where
  "pending n dst fs c \<longleftrightarrow>
     exists_path fs c \<and> (is_dir fs c \<and> c \<noteq> dst \<longrightarrow> (\<exists>m. n = Suc m \<and> deep dst fs c m))"

subsection \<open>Events outside the destination\<close>




definition same_fs2 :: fs where
  "same_fs2 =
     [([], Dir), ([''s''], Dir), ([''s'', ''a.txt''], File 1), ([''s'', ''d''], Dir),
      ([''s'', ''d'', ''c.md''], File 2)]"

section \<open>Properties of the bucket name\<close>

lemma lower_char_dot: "lower_char c = CHR ''.'' \<longleftrightarrow> c = CHR ''.''"
  by (cases c) (auto simp: Let_def)

lemma lower_Nil_iff: "lower s = [] \<longleftrightarrow> s = []"
  by (simp add: lower_def)

lemma split_last_dot:
  assumes "c \<in> set s"
  shows "\<exists>pre. s = pre @ c # rev (takeWhile (\<lambda>x. x \<noteq> c) (rev s))"
proof -
  let ?P = "\<lambda>x. x \<noteq> c"
  have "dropWhile ?P (rev s) \<noteq> []"
    using assms by (simp add: dropWhile_eq_Nil_conv)
  then obtain y ys where d: "dropWhile ?P (rev s) = y # ys"
    by (cases "dropWhile ?P (rev s)") auto
  then have "\<not> ?P y"
    using hd_dropWhile [of ?P "rev s"] by auto
  then have y: "y = c" by simp
  have "rev s = takeWhile ?P (rev s) @ c # ys"
    using d y takeWhile_dropWhile_id [of ?P "rev s"] by simp
  then have "rev (rev s) = rev (takeWhile ?P (rev s) @ c # ys)" by simp
  then have "s = rev ys @ c # rev (takeWhile ?P (rev s))" by simp
  then show ?thesis by blast
qed

lemma after_last_dot_no_dot: "CHR ''.'' \<notin> set (after_last_dot name)"
proof -
  have "\<forall>x \<in> set (takeWhile (\<lambda>x. x \<noteq> CHR ''.'') (rev name)). x \<noteq> CHR ''.''"
    using set_takeWhileD by fastforce
  then show ?thesis by (auto simp: after_last_dot_def)
qed

lemma suffix_str_eq:
  "suffix_str name = (if inner_dot name then CHR ''.'' # after_last_dot name else [])"
proof (cases "CHR ''.'' \<in> set name")
  case False
  then show ?thesis by (simp add: suffix_str_def rfind_def inner_dot_def)
next
  case True
  let ?e = "after_last_dot name"
  from split_last_dot [OF True] obtain pre where
    pre: "name = pre @ CHR ''.'' # ?e"
    using True by (auto simp: after_last_dot_def)
  have len: "length name = Suc (length pre + length ?e)"
    using arg_cong [OF pre, of length] by simp
  have e: "length (takeWhile (\<lambda>x. x \<noteq> CHR ''.'') (rev name)) = length ?e"
    using True by (simp add: after_last_dot_def)
  have i: "rfind name CHR ''.'' = int (length pre)"
    using True len e by (simp add: rfind_def)
  have d: "drop (length pre) name = CHR ''.'' # ?e"
    using arg_cong [OF pre, of "drop (length pre)"] by simp
  show ?thesis
    using True len i d by (auto simp: suffix_str_def inner_dot_def)
qed

lemma lstrip_lower_after_last_dot:
  assumes "lowercase_like lc"
  shows "lstrip CHR ''.'' (lc (CHR ''.'' # after_last_dot name)) = lc (after_last_dot name)"
proof -
  have "CHR ''.'' \<notin> set (lc (after_last_dot name))"
    using assms after_last_dot_no_dot [of name] by (simp add: lowercase_like_def)
  then have "dropWhile (\<lambda>x. x = CHR ''.'') (lc (after_last_dot name)) = lc (after_last_dot name)"
    by (cases "lc (after_last_dot name)") auto
  moreover have "lc (CHR ''.'' # after_last_dot name) = CHR ''.'' # lc (after_last_dot name)"
    using assms by (simp add: lowercase_like_def)
  ultimately show ?thesis by (simp add: lstrip_def)
qed

lemma bucket_of_eq:
  assumes "lowercase_like (str_lower env)"
  shows "bucket_of env name =
     (if inner_dot name then str_lower env (after_last_dot name) else ''no_extension'')"
proof (cases "inner_dot name")
  case True
  then have "str_lower env (after_last_dot name) \<noteq> []"
    using assms by (simp add: inner_dot_def lowercase_like_def)
  then show ?thesis
    using True lstrip_lower_after_last_dot [OF assms, of name]
    by (simp add: bucket_of_def suffix_str_eq)
next
  case False
  have "str_lower env [] = []" using assms by (simp add: lowercase_like_def)
  then show ?thesis
    using False by (simp add: bucket_of_def suffix_str_eq lstrip_def)
qed

lemma lower_no_new_dot: "CHR ''.'' \<notin> set s \<Longrightarrow> CHR ''.'' \<notin> set (lower s)"
proof
  assume a: "CHR ''.'' \<notin> set s" and b: "CHR ''.'' \<in> set (lower s)"
  from b obtain x where x: "x \<in> set s" "lower_char x = CHR ''.''"
    by (auto simp: lower_def)
  then have "x = CHR ''.''" by (simp add: lower_char_dot)
  with x(1) a show False by simp
qed

lemma lower_dot_Cons: "lower (CHR ''.'' # s) = CHR ''.'' # lower s"
proof -
  have "lower_char CHR ''.'' = CHR ''.''" by (simp add: lower_char_dot)
  then show ?thesis by (simp add: lower_def)
qed

lemma lowercase_like_lower: "lowercase_like lower"
  unfolding lowercase_like_def
  using lower_no_new_dot lower_dot_Cons lower_Nil_iff by blast

lemma lowercase_like_allow_all: "lowercase_like (str_lower allow_all)"
  by (simp add: allow_all_def lowercase_like_lower)

text \<open>
  Claim C2, as stated: the bucket name is the lowercased substring after the last dot of
  the base name, and it is \<^verbatim>\<open>no_extension\<close> exactly when that substring is empty.
  This fails for a name whose only dot is the leading one: the substring after the last
  dot of \<^verbatim>\<open>.bashrc\<close> is \<^verbatim>\<open>bashrc\<close>, but \<^verbatim>\<open>suffix\<close> is empty there and the file goes to
  \<^verbatim>\<open>no_extension\<close>.
\<close>

theorem C2_bucket_counterexample:
  "bucket_of allow_all ''.bashrc'' = ''no_extension'' \<and>
   spec_extension allow_all ''.bashrc'' = ''bashrc'' \<and>
   bucket_of allow_all ''.bashrc'' \<noteq> spec_bucket allow_all ''.bashrc''"
  by (simp add: bucket_of_def lstrip_def lower_def suffix_str_def rfind_def allow_all_def
      spec_bucket_def spec_extension_def after_last_dot_def)

text \<open>
  Claim C2, amended: when the last dot of the base name is neither its first nor its last
  character, the bucket name is the lowercased substring after that dot; in every other
  case (no dot, the last dot leading, the last dot trailing) it is \<^verbatim>\<open>no_extension\<close>.
  Hence the bucket is \<^verbatim>\<open>no_extension\<close> exactly when the name has no such dot or the
  lowercased substring after it is itself \<^verbatim>\<open>no_extension\<close>. This holds for every name
  and every lowercase function that treats a dot as \<^verbatim>\<open>str.lower\<close> does.
\<close>

theorem C2_bucket_of_inner_dot:
  assumes "lowercase_like (str_lower env)"
  shows "bucket_of env name =
           (if inner_dot name then str_lower env (after_last_dot name) else ''no_extension'') \<and>
         (bucket_of env name = ''no_extension'' \<longleftrightarrow>
            \<not> inner_dot name \<or> str_lower env (after_last_dot name) = ''no_extension'')"
  by (simp add: bucket_of_eq [OF assms])

theorem C2_bucket_of_inner_dot_witness:
  "lowercase_like (str_lower allow_all) \<and>
   inner_dot ''a.tar.GZ'' \<and> bucket_of allow_all ''a.tar.GZ'' = ''gz'' \<and>
   \<not> inner_dot ''README'' \<and> bucket_of allow_all ''README'' = ''no_extension'' \<and>
   \<not> inner_dot ''.bashrc'' \<and> \<not> inner_dot ''notes.''"
  using C2_bucket_of_inner_dot [OF lowercase_like_allow_all, of "''a.tar.GZ''"]
    C2_bucket_of_inner_dot [OF lowercase_like_allow_all, of "''README''"]
    lowercase_like_allow_all
  by (simp add: inner_dot_def after_last_dot_def lower_def allow_all_def)

section \<open>The file system primitives\<close>

lemma lookup_remove: "lookup (remove fs p) q = (if q = p then None else lookup fs q)"
  unfolding lookup_def remove_def by (induction fs) auto

lemma lookup_store: "lookup (store fs p n) q = (if q = p then Some n else lookup fs q)"
  using lookup_remove [of fs p q] by (simp add: store_def lookup_def)

lemma is_file_conv: "is_file fs p \<longleftrightarrow> (\<exists>c. lookup fs p = Some (File c))"
  by (auto simp: is_file_def split: option.splits node.splits)

lemma is_file_not_dir: "is_file fs p \<Longrightarrow> \<not> is_dir fs p"
  by (auto simp: is_file_conv is_dir_def)

lemma os_mkdir_Inr:
  "os_mkdir env fs p = Inr fs' \<Longrightarrow>
     fs' = store fs p Dir \<and> lookup fs p = None \<and> p \<noteq> [] \<and> is_dir fs (butlast p) \<and> can_mkdir env p"
  by (auto simp: os_mkdir_def is_dir_def split: if_splits option.splits node.splits)







lemma mkdir_parent_dir:
  assumes "is_dir fs (butlast p)" "p \<noteq> []" "mkdir env fs p = (fs', r)"
  shows "(fs' = fs \<or> (fs' = store fs p Dir \<and> lookup fs p = None \<and> r = None)) \<and>
         (r = None \<longrightarrow> is_dir fs' p)"
proof (cases "os_mkdir env fs p")
  case (Inr fs2)
  from os_mkdir_Inr [OF Inr] have "fs2 = store fs p Dir" "lookup fs p = None" by simp_all
  moreover have "fs' = fs2" "r = None"
    using assms(3) [unfolded mkdir.simps [of env fs p]] Inr by simp_all
  ultimately show ?thesis by (simp add: is_dir_def lookup_store)
next
  case (Inl e)
  have "e \<noteq> FileNotFoundError"
    using Inl assms(1,2) by (auto simp: os_mkdir_def is_dir_def split: if_splits)
  then have "(if is_dir fs p then (fs, None) else (fs, Some e)) = (fs', r)"
    using Inl assms(3) [unfolded mkdir.simps [of env fs p]] by (cases e) (auto split: if_splits)
  then show ?thesis by (auto split: if_splits)
qed

lemma os_rename_Inr:
  assumes "os_rename env fs a b = Inr fs'"
  shows "\<exists>n. lookup fs a = Some n \<and> b \<noteq> [] \<and> is_dir fs (butlast b) \<and>
           (a = b \<and> fs' = fs \<or> a \<noteq> b \<and> \<not> is_dir fs b \<and> can_move env a b \<and> fs' = store (remove fs a) b n)"
  using assms
  by (auto simp: os_rename_def is_dir_def split: option.splits node.splits if_splits)

lemma os_rename_lookup:
  assumes "os_rename env fs a b = Inr fs'"
  shows "\<exists>n. lookup fs a = Some n \<and>
           (\<forall>q. lookup fs' q = (if q = b then Some n else if q = a then None else lookup fs q))"
  using os_rename_Inr [OF assms] by (auto simp: lookup_store lookup_remove)

lemma copy_unlink_Inr:
  assumes "copy_unlink env fs a b = Inr fs'"
  shows "\<exists>n. lookup fs a = Some n \<and> b \<noteq> [] \<and> is_dir fs (butlast b) \<and>
           a \<noteq> b \<and> \<not> is_dir fs b \<and> fs' = store (remove fs a) b n"
  using assms
  by (auto simp: copy_unlink_def is_dir_def
      split: option.splits node.splits if_splits copy_outcome.splits)

lemma copy_unlink_Inl:
  assumes "copy_unlink env fs a b = Inl (e, fs')"
  shows "fs' = fs \<or>
         (\<exists>n m. lookup fs a = Some n \<and> a \<noteq> b \<and> \<not> is_dir fs b \<and> fs' = store fs b m \<and>
                (m = n \<or> (\<exists>c. m = File c)))"
  using assms
  by (auto simp: copy_unlink_def is_dir_def
      split: option.splits node.splits if_splits copy_outcome.splits)

lemma move_as_rename_or_copy:
  "move env fs a b = Inr fs' \<Longrightarrow>
     os_rename env fs a (real_dst fs a b) = Inr fs' \<or> copy_unlink env fs a (real_dst fs a b) = Inr fs'"
  by (auto simp: move_def real_dst_def rename_or_copy_def Let_def split: if_splits sum.splits)

lemma move_Inr:
  assumes "move env fs a b = Inr fs'"
  shows "\<exists>n. lookup fs a = Some n \<and>
           (\<forall>q. lookup fs' q = (if q = real_dst fs a b then Some n else if q = a then None else lookup fs q)) \<and>
           (a \<noteq> real_dst fs a b \<longrightarrow> \<not> is_dir fs (real_dst fs a b))"
proof -
  from move_as_rename_or_copy [OF assms] show ?thesis
  proof
    assume "os_rename env fs a (real_dst fs a b) = Inr fs'"
    from os_rename_Inr [OF this] show ?thesis
      by (auto simp: lookup_store lookup_remove)
  next
    assume "copy_unlink env fs a (real_dst fs a b) = Inr fs'"
    from copy_unlink_Inr [OF this] show ?thesis
      by (auto simp: lookup_store lookup_remove)
  qed
qed

lemma move_Inl:
  assumes "move env fs a b = Inl (e, fs')"
  shows "fs' = fs \<or>
         (\<exists>n m. lookup fs a = Some n \<and> a \<noteq> real_dst fs a b \<and> \<not> is_dir fs (real_dst fs a b) \<and>
                fs' = store fs (real_dst fs a b) m \<and> (m = n \<or> (\<exists>c. m = File c)))"
proof -
  have "fs' = fs \<or> copy_unlink env fs a (real_dst fs a b) = Inl (e, fs')"
    using assms
    by (auto simp: move_def real_dst_def rename_or_copy_def Let_def split: if_splits sum.splits)
  then show ?thesis using copy_unlink_Inl by blast
qed

lemma move_Inl_source:
  assumes "move env fs a b = Inl (e, fs')"
  shows "lookup fs' a = lookup fs a"
  using move_Inl [OF assms] by (auto simp: lookup_store)

lemma emit_emit: "emit tr (emit tr' r) = emit (tr @ tr') r"
  by (auto simp: emit_def split: option.splits)





section \<open>Errors inside the loop\<close>






section \<open>Reasoning about a run by its outcome\<close>

lemma for_items_ConsE [consumes 1, case_names Skip Dir MkdirFail MoveFail Moved Other]:
  assumes "for_items n env src dst (x # xs) fs = Some (fs', tr, exc)"
  obtains
    (Skip) tr' where "is_dir fs (src @ [x])" "src @ [x] = dst"
      "for_items n env src dst xs fs = Some (fs', tr', exc)" "tr = Skip (src @ [x]) # tr'"
  | (Dir) fs1 tr1 tr' where "is_dir fs (src @ [x])" "src @ [x] \<noteq> dst"
      "copy_and_sort n env (src @ [x]) dst fs = Some (fs1, tr1)"
      "for_items n env src dst xs fs1 = Some (fs', tr', exc)" "tr = tr1 @ tr'"
  | (MkdirFail) e where "is_file fs (src @ [x])"
      "mkdir env fs (dst @ [bucket_of env x]) = (fs', Some e)" "tr = []" "exc = Some e"
  | (MoveFail) fs1 e fs2 tr' where "is_file fs (src @ [x])"
      "mkdir env fs (dst @ [bucket_of env x]) = (fs1, None)"
      "move env fs1 (src @ [x]) (dst @ [bucket_of env x, x]) = Inl (e, fs2)"
      "for_items n env src dst xs fs2 = Some (fs', tr', exc)" "tr = MoveFailed (src @ [x]) e # tr'"
  | (Moved) fs1 fs2 tr' where "is_file fs (src @ [x])"
      "mkdir env fs (dst @ [bucket_of env x]) = (fs1, None)"
      "move env fs1 (src @ [x]) (dst @ [bucket_of env x, x]) = Inr fs2"
      "for_items n env src dst xs fs2 = Some (fs', tr', exc)"
      "tr = Moved (src @ [x]) (real_dst fs1 (src @ [x]) (dst @ [bucket_of env x, x])) # tr'"
  | (Other) "\<not> is_dir fs (src @ [x])" "\<not> is_file fs (src @ [x])"
      "for_items n env src dst xs fs = Some (fs', tr, exc)"
proof (cases "is_dir fs (src @ [x])")
  case d: True
  show ?thesis
  proof (cases "src @ [x] = dst")
    case True
    with d assms Skip show ?thesis
      by (auto simp: resolve_def emit_def split: option.splits)
  next
    case False
    with d assms Dir show ?thesis
      by (auto simp: resolve_def emit_def split: option.splits)
  qed
next
  case d: False
  show ?thesis
  proof (cases "is_file fs (src @ [x])")
    case False
    with d assms Other show ?thesis by simp
  next
    case f: True
    obtain fs1 r where m: "mkdir env fs (dst @ [bucket_of env x]) = (fs1, r)" by force
    show ?thesis
    proof (cases r)
      case (Some e)
      have "for_items n env src dst (x # xs) fs = Some (fs1, [], Some e)"
        using d f m Some by (simp add: Let_def)
      with assms have "fs' = fs1" "tr = []" "exc = Some e" by simp_all
      then show ?thesis using MkdirFail [of e] f m Some by simp
    next
      case None
      show ?thesis
      proof (cases "move env fs1 (src @ [x]) (dst @ [bucket_of env x, x])")
        case (Inl ef)
        obtain e fs2 where ef: "ef = (e, fs2)" by force
        with Inl d f m None assms MoveFail [of fs1 e fs2] show ?thesis
          by (auto simp: Let_def emit_def split: option.splits)
      next
        case (Inr fs2)
        with d f m None assms Moved [of fs1 fs2] show ?thesis
          by (auto simp: Let_def emit_def split: option.splits)
      qed
    qed
  qed
qed

lemma copy_and_sort_SucE [consumes 1, case_names ListFail Ok Exc]:
  assumes "copy_and_sort (Suc n) env src dst fs = Some (fs', tr)"
  obtains
    (ListFail) e where "iterdir env fs src = Inl e" "fs' = fs" "tr = [DirFailed src e]"
  | (Ok) names tr' where "iterdir env fs src = Inr names"
      "for_items n env src dst names fs = Some (fs', tr', None)" "tr = Visit src # tr'"
  | (Exc) names tr' e where "iterdir env fs src = Inr names"
      "for_items n env src dst names fs = Some (fs', tr', Some e)"
      "tr = Visit src # tr' @ [DirFailed src e]"
  using assms by (auto split: sum.splits option.splits)

lemma sorter_induct [case_names Nil Skip Dir MkdirFail MoveFail Moved Other ListFail Ok Exc]:
  fixes P :: "nat \<Rightarrow> path \<Rightarrow> string list \<Rightarrow> fs \<Rightarrow> fs \<Rightarrow> event list \<Rightarrow> os_error option \<Rightarrow> bool"
    and Q :: "nat \<Rightarrow> path \<Rightarrow> fs \<Rightarrow> fs \<Rightarrow> event list \<Rightarrow> bool"
  assumes Nil: "\<And>n src fs. P n src [] fs fs [] None"
    and Skip: "\<And>n src x xs fs fs' tr exc.
      \<lbrakk>is_dir fs (src @ [x]); src @ [x] = dst;
       for_items n env src dst xs fs = Some (fs', tr, exc); P n src xs fs fs' tr exc\<rbrakk>
      \<Longrightarrow> P n src (x # xs) fs fs' (Skip (src @ [x]) # tr) exc"
    and Dir: "\<And>n src x xs fs fs1 tr1 fs' tr exc.
      \<lbrakk>is_dir fs (src @ [x]); src @ [x] \<noteq> dst;
       copy_and_sort n env (src @ [x]) dst fs = Some (fs1, tr1); Q n (src @ [x]) fs fs1 tr1;
       for_items n env src dst xs fs1 = Some (fs', tr, exc); P n src xs fs1 fs' tr exc\<rbrakk>
      \<Longrightarrow> P n src (x # xs) fs fs' (tr1 @ tr) exc"
    and MkdirFail: "\<And>n src x xs fs fs' e.
      \<lbrakk>is_file fs (src @ [x]); mkdir env fs (dst @ [bucket_of env x]) = (fs', Some e)\<rbrakk>
      \<Longrightarrow> P n src (x # xs) fs fs' [] (Some e)"
    and MoveFail: "\<And>n src x xs fs fs1 e fs2 fs' tr exc.
      \<lbrakk>is_file fs (src @ [x]); mkdir env fs (dst @ [bucket_of env x]) = (fs1, None);
       move env fs1 (src @ [x]) (dst @ [bucket_of env x, x]) = Inl (e, fs2);
       for_items n env src dst xs fs2 = Some (fs', tr, exc); P n src xs fs2 fs' tr exc\<rbrakk>
      \<Longrightarrow> P n src (x # xs) fs fs' (MoveFailed (src @ [x]) e # tr) exc"
    and Moved: "\<And>n src x xs fs fs1 fs2 fs' tr exc.
      \<lbrakk>is_file fs (src @ [x]); mkdir env fs (dst @ [bucket_of env x]) = (fs1, None);
       move env fs1 (src @ [x]) (dst @ [bucket_of env x, x]) = Inr fs2;
       for_items n env src dst xs fs2 = Some (fs', tr, exc); P n src xs fs2 fs' tr exc\<rbrakk>
      \<Longrightarrow> P n src (x # xs) fs fs'
            (Moved (src @ [x]) (real_dst fs1 (src @ [x]) (dst @ [bucket_of env x, x])) # tr) exc"
    and Other: "\<And>n src x xs fs fs' tr exc.
      \<lbrakk>\<not> is_dir fs (src @ [x]); \<not> is_file fs (src @ [x]);
       for_items n env src dst xs fs = Some (fs', tr, exc); P n src xs fs fs' tr exc\<rbrakk>
      \<Longrightarrow> P n src (x # xs) fs fs' tr exc"
    and ListFail: "\<And>n src fs e. iterdir env fs src = Inl e \<Longrightarrow> Q (Suc n) src fs fs [DirFailed src e]"
    and Ok: "\<And>n src fs names fs' tr.
      \<lbrakk>iterdir env fs src = Inr names; for_items n env src dst names fs = Some (fs', tr, None);
       P n src names fs fs' tr None\<rbrakk>
      \<Longrightarrow> Q (Suc n) src fs fs' (Visit src # tr)"
    and Exc: "\<And>n src fs names fs' tr e.
      \<lbrakk>iterdir env fs src = Inr names; for_items n env src dst names fs = Some (fs', tr, Some e);
       P n src names fs fs' tr (Some e)\<rbrakk>
      \<Longrightarrow> Q (Suc n) src fs fs' (Visit src # tr @ [DirFailed src e])"
  shows "(for_items n env src dst xs fs = Some (fs', tr, exc) \<longrightarrow> P n src xs fs fs' tr exc) \<and>
         (copy_and_sort n env src dst fs = Some (fs', tr) \<longrightarrow> Q n src fs fs' tr)"
proof -
  have step: "\<forall>src fs fs' tr exc. for_items n env src dst xs fs = Some (fs', tr, exc) \<longrightarrow> P n src xs fs fs' tr exc"
    if cs: "\<forall>src fs fs' tr. copy_and_sort n env src dst fs = Some (fs', tr) \<longrightarrow> Q n src fs fs' tr"
    for n xs
  proof (induction xs)
    case Nil
    show ?case using assms(1) by simp
  next
    case (Cons x xs)
    show ?case
    proof (intro allI impI)
      fix src fs fs' tr exc
      assume "for_items n env src dst (x # xs) fs = Some (fs', tr, exc)"
      then show "P n src (x # xs) fs fs' tr exc"
      proof (cases rule: for_items_ConsE)
        case (Skip tr')
        then show ?thesis using assms(2) Cons.IH by blast
      next
        case (Dir fs1 tr1 tr')
        then show ?thesis using assms(3) Cons.IH cs by blast
      next
        case (MkdirFail e)
        then show ?thesis using assms(4) by blast
      next
        case (MoveFail fs1 e fs2 tr')
        then show ?thesis using assms(5) Cons.IH by blast
      next
        case (Moved fs1 fs2 tr')
        then show ?thesis using assms(6) Cons.IH by blast
      next
        case Other
        then show ?thesis using assms(7) Cons.IH by blast
      qed
    qed
  qed
  have cs: "\<forall>src fs fs' tr. copy_and_sort n env src dst fs = Some (fs', tr) \<longrightarrow> Q n src fs fs' tr" for n
  proof (induction n)
    case 0
    show ?case by simp
  next
    case (Suc n)
    show ?case
    proof (intro allI impI)
      fix src fs fs' tr
      assume "copy_and_sort (Suc n) env src dst fs = Some (fs', tr)"
      then show "Q (Suc n) src fs fs' tr"
      proof (cases rule: copy_and_sort_SucE)
        case (ListFail e)
        then show ?thesis using assms(8) by blast
      next
        case (Ok names tr')
        then show ?thesis using assms(9) step [OF Suc.IH] by blast
      next
        case (Exc names tr' e)
        then show ?thesis using assms(10) step [OF Suc.IH] by blast
      qed
    qed
  qed
  show ?thesis using cs step [OF cs] by blast
qed

section \<open>The frame of a run\<close>

lemma frame_refl: "frame dst Z fs fs"
  by (simp add: frame_def)

lemma frame_weaken: "frame dst Z fs fs' \<Longrightarrow> (\<And>q. Z q \<Longrightarrow> Z' q) \<Longrightarrow> frame dst Z' fs fs'"
  unfolding frame_def by blast

lemma frame_trans:
  assumes "frame dst Z1 fs fs1" "frame dst Z2 fs1 fs2"
  shows "frame dst (\<lambda>q. Z1 q \<or> Z2 q) fs fs2"
proof -
  have 1: "\<forall>q. is_dir fs q \<longrightarrow> is_dir fs2 q"
    using assms unfolding frame_def by blast
  have 2: "\<forall>q. is_dir fs2 q \<longrightarrow> is_dir fs q \<or> (\<exists>e. q = dst @ [e])"
    using assms unfolding frame_def by blast
  have 3: "\<forall>q. \<not> (Z1 q \<or> Z2 q) \<and> exists_path fs q \<and> \<not> is_dir fs q \<longrightarrow>
          exists_path fs2 q \<and> \<not> is_dir fs2 q \<and> (is_file fs q \<longrightarrow> is_file fs2 q)"
    using assms unfolding frame_def by blast
  have 4: "\<forall>q. \<not> prefix dst q \<and> exists_path fs2 q \<longrightarrow> lookup fs2 q = lookup fs q"
  proof (intro allI impI)
    fix q assume q: "\<not> prefix dst q \<and> exists_path fs2 q"
    then have a: "lookup fs2 q = lookup fs1 q" using assms(2) unfolding frame_def by blast
    then have "exists_path fs1 q" using q by (simp add: exists_path_def)
    then have "lookup fs1 q = lookup fs q" using q assms(1) unfolding frame_def by blast
    with a show "lookup fs2 q = lookup fs q" by simp
  qed
  show ?thesis unfolding frame_def using 1 2 3 4 by blast
qed

lemma frame_store_dir:
  assumes "lookup fs (dst @ [e]) = None"
  shows "frame dst Z fs (store fs (dst @ [e]) Dir)"
  using assms
  by (auto simp: frame_def is_dir_def is_file_conv exists_path_def lookup_store)

lemma mkdir_frame:
  assumes "is_dir fs dst" "mkdir env fs (dst @ [e]) = (fs', r)"
  shows "frame dst Z fs fs'"
proof -
  have "is_dir fs (butlast (dst @ [e]))" using assms(1) by simp
  from mkdir_parent_dir [OF this _ assms(2)]
  have "fs' = fs \<or> (fs' = store fs (dst @ [e]) Dir \<and> lookup fs (dst @ [e]) = None)" by auto
  then show ?thesis using frame_refl frame_store_dir by auto
qed

lemma real_dst_under:
  "prefix dst b \<Longrightarrow> prefix dst (real_dst fs a b)"
  by (auto simp: real_dst_def prefix_def)

lemma move_frame:
  assumes "is_file fs a" "prefix dst b" "move env fs a b = Inr fs'"
  shows "frame dst (\<lambda>q. q = a) fs fs'"
proof -
  let ?t = "real_dst fs a b"
  from move_Inr [OF assms(3)] obtain n where
    n: "lookup fs a = Some n"
    and l: "\<And>q. lookup fs' q = (if q = ?t then Some n else if q = a then None else lookup fs q)"
    and t: "a \<noteq> ?t \<longrightarrow> \<not> is_dir fs ?t"
    by blast
  from n assms(1) obtain c where c: "n = File c" by (auto simp: is_file_conv)
  have u: "prefix dst ?t" using assms(2) by (rule real_dst_under)
  have ta: "\<not> is_dir fs ?t" using t assms(1) is_file_not_dir by (cases "a = ?t") auto
  show ?thesis
    unfolding frame_def is_dir_def is_file_conv exists_path_def
    using l c n u ta [unfolded is_dir_def] by auto
qed

lemma move_fail_frame:
  assumes "is_file fs a" "prefix dst b" "move env fs a b = Inl (e, fs')"
  shows "frame dst Z fs fs'"
proof -
  let ?t = "real_dst fs a b"
  from move_Inl [OF assms(3)] show ?thesis
  proof
    assume "fs' = fs"
    then show ?thesis by (simp add: frame_refl)
  next
    assume "\<exists>n m. lookup fs a = Some n \<and> a \<noteq> ?t \<and> \<not> is_dir fs ?t \<and>
                fs' = store fs ?t m \<and> (m = n \<or> (\<exists>c. m = File c))"
    then obtain n m where n: "lookup fs a = Some n" and t: "\<not> is_dir fs ?t"
      and f: "fs' = store fs ?t m" and m: "m = n \<or> (\<exists>c. m = File c)"
      by blast
    from n assms(1) m obtain c where c: "m = File c" by (auto simp: is_file_conv)
    have u: "prefix dst ?t" using assms(2) by (rule real_dst_under)
    have l: "\<And>q. lookup fs' q = (if q = ?t then Some (File c) else lookup fs q)"
      using f c by (simp add: lookup_store)
    show ?thesis
      unfolding frame_def is_dir_def is_file_conv exists_path_def
      using l u t [unfolded is_dir_def] by auto
  qed
qed

lemma frame_is_dir: "frame dst Z fs fs' \<Longrightarrow> is_dir fs q \<Longrightarrow> is_dir fs' q"
  unfolding frame_def by blast

lemma is_file_exists: "is_file fs q \<Longrightarrow> exists_path fs q"
  by (auto simp: exists_path_def is_file_conv)

lemma frame_is_file:
  assumes "frame dst Z fs fs'" "is_file fs q" "\<not> Z q"
  shows "is_file fs' q"
proof -
  have "\<not> Z q \<and> exists_path fs q \<and> \<not> is_dir fs q"
    using assms(2,3) is_file_exists is_file_not_dir by blast
  moreover have "\<forall>q. \<not> Z q \<and> exists_path fs q \<and> \<not> is_dir fs q \<longrightarrow>
          exists_path fs' q \<and> \<not> is_dir fs' q \<and> (is_file fs q \<longrightarrow> is_file fs' q)"
    using assms(1) unfolding frame_def by blast
  ultimately show ?thesis using assms(2) by blast
qed

lemma zone_file_item:
  assumes "is_dir fs dst" "is_file fs a"
  shows "zone dst a a"
proof -
  have "a \<noteq> dst" using assms is_file_not_dir by auto
  then show ?thesis by (auto simp: zone_def strict_prefix_def)
qed

lemma zone_sub_item:
  assumes "src @ [x] \<noteq> dst" "zone dst (src @ [x] @ [y]) q"
  shows "zone dst (src @ [x]) q"
proof -
  from assms(2) have p: "prefix (src @ [x] @ [y]) q"
    and d: "strict_prefix dst (src @ [x] @ [y]) \<or> \<not> prefix dst q"
    by (auto simp: zone_def)
  have p': "prefix (src @ [x]) q" using p by (metis append.assoc append_prefixD)
  have "strict_prefix dst (src @ [x]) \<or> \<not> prefix dst q"
  proof (cases "prefix dst q")
    case False then show ?thesis by simp
  next
    case True
    with d have "strict_prefix dst ((src @ [x]) @ [y])" by simp
    then have "prefix dst ((src @ [x]) @ [y])" "dst \<noteq> (src @ [x]) @ [y]"
      by (auto simp: strict_prefix_def)
    then have "prefix dst (src @ [x])" using prefix_snoc [of dst "src @ [x]" y] by blast
    then show ?thesis using assms(1) by (auto simp: strict_prefix_def)
  qed
  with p' show ?thesis by (simp add: zone_def)
qed

lemma sorter_frame:
  "(for_items n env src dst xs fs = Some (fs', tr, exc) \<longrightarrow>
      (is_dir fs dst \<longrightarrow> frame dst (\<lambda>q. \<exists>x \<in> set xs. zone dst (src @ [x]) q) fs fs')) \<and>
   (copy_and_sort n env src dst fs = Some (fs', tr) \<longrightarrow>
      (is_dir fs dst \<longrightarrow> frame dst (\<lambda>q. \<exists>x. zone dst (src @ [x]) q) fs fs'))"
proof (induction rule: sorter_induct [where
      P = "\<lambda>n src xs fs fs' tr exc. is_dir fs dst \<longrightarrow> frame dst (\<lambda>q. \<exists>x \<in> set xs. zone dst (src @ [x]) q) fs fs'"
      and Q = "\<lambda>n src fs fs' tr. is_dir fs dst \<longrightarrow> frame dst (\<lambda>q. \<exists>x. zone dst (src @ [x]) q) fs fs'"])
  case (Nil n src fs)
  then show ?case by (simp add: frame_refl)
next
  case (Skip n src x xs fs fs' tr exc)
  show ?case
  proof
    assume "is_dir fs dst"
    with Skip have "frame dst (\<lambda>q. \<exists>x \<in> set xs. zone dst (src @ [x]) q) fs fs'" by simp
    then show "frame dst (\<lambda>q. \<exists>x \<in> set (x # xs). zone dst (src @ [x]) q) fs fs'"
      by (rule frame_weaken) auto
  qed
next
  case (Dir n src x xs fs fs1 tr1 fs' tr exc)
  show ?case
  proof
    assume d: "is_dir fs dst"
    with Dir have f1: "frame dst (\<lambda>q. \<exists>y. zone dst ((src @ [x]) @ [y]) q) fs fs1" by simp
    then have "is_dir fs1 dst" using d by (rule frame_is_dir)
    with Dir have f2: "frame dst (\<lambda>q. \<exists>x \<in> set xs. zone dst (src @ [x]) q) fs1 fs'" by simp
    show "frame dst (\<lambda>q. \<exists>x \<in> set (x # xs). zone dst (src @ [x]) q) fs fs'"
      by (rule frame_weaken [OF frame_trans [OF f1 f2]]) (use zone_sub_item [OF Dir(2)] in auto)
  qed
next
  case (MkdirFail n src x xs fs fs' e)
  show ?case
  proof
    assume "is_dir fs dst"
    then show "frame dst (\<lambda>q. \<exists>x \<in> set (x # xs). zone dst (src @ [x]) q) fs fs'"
      using MkdirFail(2) by (rule mkdir_frame)
  qed
next
  case (MoveFail n src x xs fs fs1 e fs2 fs' tr exc)
  show ?case
  proof
    assume d: "is_dir fs dst"
    have f1: "frame dst (\<lambda>q. False) fs fs1" using d MoveFail(2) by (rule mkdir_frame)
    then have d1: "is_dir fs1 dst" using d by (rule frame_is_dir)
    have fl: "is_file fs1 (src @ [x])" using f1 MoveFail(1) by (rule frame_is_file) simp
    have "prefix dst (dst @ [bucket_of env x, x])" by simp
    with fl have f2: "frame dst (\<lambda>q. False) fs1 fs2" using MoveFail(3) by (rule move_fail_frame)
    then have "is_dir fs2 dst" using d1 by (rule frame_is_dir)
    with MoveFail have f3: "frame dst (\<lambda>q. \<exists>x \<in> set xs. zone dst (src @ [x]) q) fs2 fs'" by simp
    show "frame dst (\<lambda>q. \<exists>x \<in> set (x # xs). zone dst (src @ [x]) q) fs fs'"
      by (rule frame_weaken [OF frame_trans [OF frame_trans [OF f1 f2] f3]]) auto
  qed
next
  case (Moved n src x xs fs fs1 fs2 fs' tr exc)
  show ?case
  proof
    assume d: "is_dir fs dst"
    have f1: "frame dst (\<lambda>q. False) fs fs1" using d Moved(2) by (rule mkdir_frame)
    then have d1: "is_dir fs1 dst" using d by (rule frame_is_dir)
    have fl: "is_file fs1 (src @ [x])" using f1 Moved(1) by (rule frame_is_file) simp
    have "prefix dst (dst @ [bucket_of env x, x])" by simp
    with fl have f2: "frame dst (\<lambda>q. q = src @ [x]) fs1 fs2" using Moved(3) by (rule move_frame)
    then have d2: "is_dir fs2 dst" using d1 by (rule frame_is_dir)
    with Moved have f3: "frame dst (\<lambda>q. \<exists>x \<in> set xs. zone dst (src @ [x]) q) fs2 fs'" by simp
    have z: "zone dst (src @ [x]) (src @ [x])" using d1 fl by (rule zone_file_item)
    show "frame dst (\<lambda>q. \<exists>x \<in> set (x # xs). zone dst (src @ [x]) q) fs fs'"
      by (rule frame_weaken [OF frame_trans [OF frame_trans [OF f1 f2] f3]]) (use z in auto)
  qed
next
  case (Other n src x xs fs fs' tr exc)
  show ?case
  proof
    assume "is_dir fs dst"
    with Other have "frame dst (\<lambda>q. \<exists>x \<in> set xs. zone dst (src @ [x]) q) fs fs'" by simp
    then show "frame dst (\<lambda>q. \<exists>x \<in> set (x # xs). zone dst (src @ [x]) q) fs fs'"
      by (rule frame_weaken) auto
  qed
next
  case (ListFail n src fs e)
  then show ?case by (simp add: frame_refl)
next
  case (Ok n src fs names fs' tr)
  show ?case
  proof
    assume "is_dir fs dst"
    with Ok have "frame dst (\<lambda>q. \<exists>x \<in> set names. zone dst (src @ [x]) q) fs fs'" by simp
    then show "frame dst (\<lambda>q. \<exists>x. zone dst (src @ [x]) q) fs fs'"
      by (rule frame_weaken) auto
  qed
next
  case (Exc n src fs names fs' tr e)
  show ?case
  proof
    assume "is_dir fs dst"
    with Exc have "frame dst (\<lambda>q. \<exists>x \<in> set names. zone dst (src @ [x]) q) fs fs'" by simp
    then show "frame dst (\<lambda>q. \<exists>x. zone dst (src @ [x]) q) fs fs'"
      by (rule frame_weaken) auto
  qed
qed

section \<open>A bucket that cannot be created\<close>



section \<open>The bucket is created before the move\<close>

lemma mkdir_creates:
  assumes "is_dir fs (butlast p)" "p \<noteq> []" "lookup fs p = None" "can_mkdir env p"
  shows "mkdir env fs p = (store fs p Dir, None)"
proof -
  have "os_mkdir env fs p = Inr (store fs p Dir)"
    using assms by (simp add: os_mkdir_def is_dir_def)
  then show ?thesis by (simp add: mkdir.simps [of env fs p])
qed

lemma mkdir_existing:
  assumes "is_dir fs p" "is_dir fs (butlast p)" "p \<noteq> []"
  shows "mkdir env fs p = (fs, None)"
proof -
  have "os_mkdir env fs p = Inl FileExistsError"
    using assms by (simp add: os_mkdir_def is_dir_def)
  then show ?thesis using assms(1) by (simp add: mkdir.simps [of env fs p])
qed

text \<open>
  Claim C8: the bucket directory is created before the move is tried. When the bucket
  was absent and the move then fails, the file is where it was, but the file system is
  not what it was: the new bucket directory is there, and it is still there when the
  loop over the directory ends.
\<close>

theorem C8_bucket_left_after_failed_move:
  assumes "is_file fs (src @ [x])"
    and "is_dir fs dst_root"
    and "\<not> exists_path fs (dst_root @ [bucket_of env x])"
    and "can_mkdir env (dst_root @ [bucket_of env x])"
    and "move env (store fs (dst_root @ [bucket_of env x]) Dir) (src @ [x])
           (dst_root @ [bucket_of env x, x]) = Inl (e, fs2)"
  shows "mkdir env fs (dst_root @ [bucket_of env x]) =
           (store fs (dst_root @ [bucket_of env x]) Dir, None) \<and>
         for_items n env src dst_root (x # xs) fs =
           emit [MoveFailed (src @ [x]) e] (for_items n env src dst_root xs fs2) \<and>
         is_dir fs2 (dst_root @ [bucket_of env x]) \<and>
         lookup fs2 (src @ [x]) = lookup fs (src @ [x]) \<and>
         (\<forall>fs' tr exc. for_items n env src dst_root (x # xs) fs = Some (fs', tr, exc) \<longrightarrow>
            is_dir fs' (dst_root @ [bucket_of env x]) \<and> MoveFailed (src @ [x]) e \<in> set tr)"
proof -
  let ?b = "dst_root @ [bucket_of env x]"
  let ?fs1 = "store fs ?b Dir"
  have m: "mkdir env fs ?b = (?fs1, None)"
    using assms(2,3,4) by (intro mkdir_creates) (simp_all add: exists_path_def)
  from assms(1) have nd: "\<not> is_dir fs (src @ [x])" by (rule is_file_not_dir)
  have step: "for_items n env src dst_root (x # xs) fs =
           emit [MoveFailed (src @ [x]) e] (for_items n env src dst_root xs fs2)"
    using assms(1,5) nd m by (simp add: Let_def)
  have d1: "is_dir ?fs1 ?b" by (simp add: is_dir_def lookup_store)
  have ne: "src @ [x] \<noteq> ?b" using assms(1,3) by (auto simp: exists_path_def is_file_conv)
  have l1: "lookup ?fs1 (src @ [x]) = lookup fs (src @ [x])"
    unfolding lookup_store using ne by (simp only: if_False)
  then have fl: "is_file ?fs1 (src @ [x])" using assms(1) by (simp add: is_file_def)
  have "prefix dst_root (dst_root @ [bucket_of env x, x])" by simp
  with fl have f2: "frame dst_root (\<lambda>q. False) ?fs1 fs2" using assms(5) by (rule move_fail_frame)
  then have d2: "is_dir fs2 ?b" using d1 by (rule frame_is_dir)
  have l: "lookup fs2 (src @ [x]) = lookup fs (src @ [x])"
    using move_Inl_source [OF assms(5)] l1 by simp
  have dd: "is_dir ?fs1 dst_root" using assms(2) by (simp add: is_dir_def lookup_store)
  have dd2: "is_dir fs2 dst_root" using f2 dd by (rule frame_is_dir)
  have r: "is_dir fs' ?b \<and> MoveFailed (src @ [x]) e \<in> set tr"
    if "for_items n env src dst_root (x # xs) fs = Some (fs', tr, exc)" for fs' tr exc
  proof -
    from that step obtain tr' where
      r: "for_items n env src dst_root xs fs2 = Some (fs', tr', exc)"
      and t: "tr = MoveFailed (src @ [x]) e # tr'"
      by (auto simp: emit_def split: option.splits)
    from sorter_frame [of n env src dst_root xs fs2 fs' tr' exc] r dd2
    have "frame dst_root (\<lambda>q. \<exists>x \<in> set xs. zone dst_root (src @ [x]) q) fs2 fs'" by simp
    then have "is_dir fs' ?b" using d2 by (rule frame_is_dir)
    with t show ?thesis by simp
  qed
  show ?thesis using m step d2 l r by blast
qed

theorem C8_bucket_left_after_failed_move_witness:
  "\<not> exists_path demo_fs [''o'', ''txt''] \<and>
   for_items 0 (allow_all\<lparr>can_move := \<lambda>a b. a \<noteq> [''s'', ''a.txt''],
                         copy_to := \<lambda>a b. CopyRefused PermissionError\<rparr>)
       [''s''] [''o''] [''a.txt''] demo_fs =
     Some (([''o'', ''txt''], Dir) # demo_fs, [MoveFailed [''s'', ''a.txt''] PermissionError], None) \<and>
   children (([''o'', ''txt''], Dir) # demo_fs) [''o'', ''txt''] = []"
proof -
  let ?env = "allow_all\<lparr>can_move := \<lambda>a b. a \<noteq> [''s'', ''a.txt''],
                         copy_to := \<lambda>a b. CopyRefused PermissionError\<rparr>"
  have b: "bucket_of ?env ''a.txt'' = ''txt''" by code_simp
  have s: "store demo_fs [''o'', ''txt''] Dir = ([''o'', ''txt''], Dir) # demo_fs" by code_simp
  have h1: "is_file demo_fs ([''s''] @ [''a.txt''])" by code_simp
  have h2: "is_dir demo_fs [''o'']" by code_simp
  have h3: "\<not> exists_path demo_fs ([''o''] @ [bucket_of ?env ''a.txt''])" by code_simp
  have h4: "can_mkdir ?env ([''o''] @ [bucket_of ?env ''a.txt''])" by code_simp
  have h5: "move ?env (store demo_fs ([''o''] @ [bucket_of ?env ''a.txt'']) Dir) ([''s''] @ [''a.txt''])
       ([''o''] @ [bucket_of ?env ''a.txt'', ''a.txt'']) =
       Inl (PermissionError, ([''o'', ''txt''], Dir) # demo_fs)" by code_simp
  have c: "children (([''o'', ''txt''], Dir) # demo_fs) [''o'', ''txt''] = []" by code_simp
  from C8_bucket_left_after_failed_move [OF h1 h2 h3 h4 h5, of 0 "[]"] h3 c show ?thesis
    by (simp add: b s emit_def)
qed

section \<open>Termination\<close>

lemma fold_max_ge: "a \<le> fold max xs (a::nat)"
proof (induction xs arbitrary: a)
  case Nil show ?case by simp
next
  case (Cons x xs)
  have "a \<le> max x a" by simp
  also have "\<dots> \<le> fold max xs (max x a)" by (rule Cons.IH)
  finally show ?case by simp
qed

lemma fold_max_mem: "x \<in> set xs \<Longrightarrow> x \<le> fold max xs (a::nat)"
proof (induction xs arbitrary: a)
  case Nil then show ?case by simp
next
  case (Cons y ys)
  show ?case
  proof (cases "x = y")
    case True
    have "y \<le> max y a" by simp
    also have "\<dots> \<le> fold max ys (max y a)" by (rule fold_max_ge)
    finally show ?thesis using True by simp
  next
    case False
    with Cons.prems have "x \<in> set ys" by simp
    then show ?thesis using Cons.IH by simp
  qed
qed

lemma depth_below_bound:
  assumes "is_dir fs q" "prefix p q"
  shows "length q \<le> length p + depth_below fs p"
proof -
  have "(q, Dir) \<in> set fs"
    using assms(1) by (auto simp: is_dir_def lookup_def dest: map_of_SomeD)
  then have "(q, Dir) \<in> set (filter (\<lambda>(q, n). is_dir fs q \<and> prefix p q) fs)"
    using assms by simp
  then have "length q - length p \<in> set (map (\<lambda>(q, n). length q - length p)
      (filter (\<lambda>(q, n). is_dir fs q \<and> prefix p q) fs))"
    by (metis (mono_tags, lifting) image_eqI list.set_map case_prod_conv)
  then have "length q - length p \<le> depth_below fs p"
    unfolding depth_below_def by (rule fold_max_mem)
  then show ?thesis by simp
qed

lemma deep_depth_below: "deep dst fs p (depth_below fs p)"
  unfolding deep_def using depth_below_bound by (auto simp: strict_prefix_def)

lemma deep_mono: "deep dst fs p k \<Longrightarrow> k \<le> k' \<Longrightarrow> deep dst fs p k'"
  unfolding deep_def by (meson add_le_cancel_left le_trans)

lemma deep_frame:
  assumes "frame dst Z fs fs'" "c \<noteq> dst" "deep dst fs c m"
  shows "deep dst fs' c m"
  unfolding deep_def
proof (intro allI impI)
  fix q
  assume q: "is_dir fs' q \<and> strict_prefix c q \<and> (\<forall>r. strict_prefix c r \<and> prefix r q \<longrightarrow> r \<noteq> dst)"
  have "is_dir fs q \<or> (\<exists>e. q = dst @ [e])"
    using assms(1) q unfolding frame_def by blast
  then show "length q \<le> length c + m"
  proof
    assume "is_dir fs q"
    then show ?thesis using assms(3) q unfolding deep_def by blast
  next
    assume "\<exists>e. q = dst @ [e]"
    then obtain e where e: "q = dst @ [e]" by blast
    with q have "prefix c (dst @ [e])" "c \<noteq> dst @ [e]" by (auto simp: strict_prefix_def)
    then have "prefix c dst" using prefix_snoc [of c dst e] by blast
    then have "strict_prefix c dst" using assms(2) by (simp add: strict_prefix_def)
    moreover have "prefix dst q" using e by simp
    ultimately show ?thesis using q by blast
  qed
qed

lemma pending_frame:
  assumes "frame dst Z fs fs'" "\<not> Z c" "pending n dst fs c"
  shows "pending n dst fs' c"
proof -
  have ex: "exists_path fs c" using assms(3) by (simp add: pending_def)
  have keep: "is_dir fs q \<longrightarrow> is_dir fs' q" for q
    using assms(1) unfolding frame_def by blast
  have nd: "exists_path fs' c \<and> \<not> is_dir fs' c" if "\<not> is_dir fs c"
    using assms(1,2) ex that unfolding frame_def by blast
  have "exists_path fs' c"
  proof (cases "is_dir fs c")
    case True
    then have "is_dir fs' c" using keep by blast
    then show ?thesis by (simp add: is_dir_def exists_path_def)
  next
    case False
    then show ?thesis using nd by blast
  qed
  moreover have "\<exists>m. n = Suc m \<and> deep dst fs' c m" if d: "is_dir fs' c" and ne: "c \<noteq> dst"
  proof -
    have "is_dir fs c" using d nd by blast
    then obtain m where "n = Suc m" "deep dst fs c m"
      using assms(3) ne by (auto simp: pending_def)
    then show ?thesis using deep_frame [OF assms(1) ne] by blast
  qed
  ultimately show ?thesis by (simp add: pending_def)
qed

lemma emit_None: "emit tr r = None \<longleftrightarrow> r = None"
  by (auto simp: emit_def split: option.splits)

lemma not_zone_sibling:
  assumes "x' \<noteq> x"
  shows "\<not> zone dst (p @ [x]) (p @ [x'])" "\<not> zone dst ((p @ [x]) @ [y]) (p @ [x'])"
  using assms by (auto simp: zone_def)

lemma for_items_returns:
  assumes rec: "\<And>fs c. is_dir fs dst \<Longrightarrow> \<exists>m. n = Suc m \<and> deep dst fs c m
                  \<Longrightarrow> copy_and_sort n env c dst fs \<noteq> None"
  shows "is_dir fs dst \<Longrightarrow> distinct xs \<Longrightarrow> \<forall>x \<in> set xs. pending n dst fs (p @ [x])
           \<Longrightarrow> for_items n env p dst xs fs \<noteq> None"
proof (induction xs arbitrary: fs)
  case Nil
  show ?case by simp
next
  case (Cons x xs)
  let ?item = "p @ [x]"
  have dx: "distinct xs" and nx: "x \<notin> set xs" using Cons.prems(2) by simp_all
  have rest: "for_items n env p dst xs fs' \<noteq> None"
    if f: "frame dst Z fs fs'" and z: "\<And>x'. x' \<noteq> x \<Longrightarrow> \<not> Z (p @ [x'])" for fs' Z
  proof -
    have "is_dir fs' dst" using f Cons.prems(1) by (rule frame_is_dir)
    moreover have "\<forall>x' \<in> set xs. pending n dst fs' (p @ [x'])"
    proof
      fix x' assume x': "x' \<in> set xs"
      then have "x' \<noteq> x" using nx by blast
      then have "\<not> Z (p @ [x'])" by (rule z)
      moreover have "pending n dst fs (p @ [x'])" using Cons.prems(3) x' by simp
      ultimately show "pending n dst fs' (p @ [x'])" using f pending_frame by blast
    qed
    ultimately show ?thesis using dx Cons.IH by blast
  qed
  show ?case
  proof (cases "is_dir fs ?item")
    case d: True
    show ?thesis
    proof (cases "?item = dst")
      case True
      have "for_items n env p dst xs fs \<noteq> None"
        by (rule rest [OF frame_refl [of dst "\<lambda>q. False"]]) simp
      then show ?thesis using d True by (simp add: resolve_def emit_None)
    next
      case False
      have "pending n dst fs ?item" using Cons.prems(3) by simp
      then have "\<exists>m. n = Suc m \<and> deep dst fs ?item m"
        using d False by (simp add: pending_def)
      with rec [OF Cons.prems(1)] obtain fs1 tr1 where
        c: "copy_and_sort n env ?item dst fs = Some (fs1, tr1)" by fastforce
      have f1: "frame dst (\<lambda>q. \<exists>y. zone dst (?item @ [y]) q) fs fs1"
        using sorter_frame [of n env ?item dst "[]" fs fs1 tr1] c Cons.prems(1) by simp
      have "for_items n env p dst xs fs1 \<noteq> None"
        by (rule rest [OF f1]) (use not_zone_sibling(2) in blast)
      then show ?thesis using d False c by (simp add: resolve_def emit_None)
    qed
  next
    case d: False
    show ?thesis
    proof (cases "is_file fs ?item")
      case False
      have "for_items n env p dst xs fs \<noteq> None"
        by (rule rest [OF frame_refl [of dst "\<lambda>q. False"]]) simp
      then show ?thesis using d False by simp
    next
      case f: True
      obtain fs1 r where m: "mkdir env fs (dst @ [bucket_of env x]) = (fs1, r)" by force
      have f1: "frame dst (\<lambda>q. False) fs fs1" using Cons.prems(1) m by (rule mkdir_frame)
      show ?thesis
      proof (cases r)
        case (Some e)
        then show ?thesis using d f m by (simp add: Let_def)
      next
        case None
        show ?thesis
        proof (cases "move env fs1 ?item (dst @ [bucket_of env x, x])")
          case (Inl ef)
          obtain e fs2 where ef: "ef = (e, fs2)" by force
          have fl: "is_file fs1 ?item" using f1 f by (rule frame_is_file) simp
          have "prefix dst (dst @ [bucket_of env x, x])" by simp
          with fl have f2: "frame dst (\<lambda>q. False) fs1 fs2"
            using Inl ef move_fail_frame by blast
          have "for_items n env p dst xs fs2 \<noteq> None"
            by (rule rest [OF frame_trans [OF f1 f2]]) simp
          then show ?thesis using d f m None Inl ef by (simp add: Let_def emit_None)
        next
          case (Inr fs2)
          have fl: "is_file fs1 ?item" using f1 f by (rule frame_is_file) simp
          have "prefix dst (dst @ [bucket_of env x, x])" by simp
          with fl have f2: "frame dst (\<lambda>q. q = ?item) fs1 fs2" using Inr by (rule move_frame)
          have "for_items n env p dst xs fs2 \<noteq> None"
            by (rule rest [OF frame_trans [OF f1 f2]]) simp
          then show ?thesis using d f m None Inr by (simp add: Let_def emit_None)
        qed
      qed
    qed
  qed
qed

lemma children_exists: "x \<in> set (children fs p) \<Longrightarrow> exists_path fs (p @ [x])"
proof -
  assume "x \<in> set (children fs p)"
  then obtain q n where q: "(q, n) \<in> set fs" "q \<noteq> []" "butlast q = p" "x = last q"
    by (auto simp: children_def)
  then have "q = p @ [x]" by (metis append_butlast_last_id)
  with q(1) have "p @ [x] \<in> fst ` set fs" by force
  then show ?thesis by (simp add: exists_path_def lookup_def map_of_eq_None_iff)
qed

lemma deep_child:
  assumes "deep dst fs p k" "is_dir fs (p @ [x])" "p @ [x] \<noteq> dst"
  shows "\<exists>m. k = Suc m \<and> deep dst fs (p @ [x]) m"
proof -
  have between: "r = p @ [x] \<or> strict_prefix (p @ [x]) r"
    if "strict_prefix p r" "prefix r q" "prefix (p @ [x]) q" for r q
  proof -
    from that(2,3) have "prefix r (p @ [x]) \<or> prefix (p @ [x]) r"
      by (metis prefix_same_cases)
    moreover have "prefix r (p @ [x]) \<Longrightarrow> r = p @ [x]"
      using that(1) by (auto simp: strict_prefix_def)
    ultimately show ?thesis by (auto simp: strict_prefix_def)
  qed
  have "strict_prefix p (p @ [x])" by (simp add: strict_prefix_def)
  moreover have "\<forall>r. strict_prefix p r \<and> prefix r (p @ [x]) \<longrightarrow> r \<noteq> dst"
  proof (intro allI impI)
    fix r assume r: "strict_prefix p r \<and> prefix r (p @ [x])"
    then have "r = p @ [x] \<or> prefix r p" using prefix_snoc [of r p x] by blast
    moreover have "\<not> prefix r p" using r by (auto simp: strict_prefix_def)
    ultimately show "r \<noteq> dst" using assms(3) by blast
  qed
  ultimately have "length (p @ [x]) \<le> length p + k"
    using assms(1,2) unfolding deep_def by blast
  then obtain m where m: "k = Suc m" by (cases k) auto
  have "deep dst fs (p @ [x]) m"
    unfolding deep_def
  proof (intro allI impI)
    fix q
    assume q: "is_dir fs q \<and> strict_prefix (p @ [x]) q \<and>
        (\<forall>r. strict_prefix (p @ [x]) r \<and> prefix r q \<longrightarrow> r \<noteq> dst)"
    then have pq: "prefix (p @ [x]) q" by (simp add: strict_prefix_def)
    have "strict_prefix p q" using pq by (rule prefix_snocD)
    moreover have "\<forall>r. strict_prefix p r \<and> prefix r q \<longrightarrow> r \<noteq> dst"
      using between [OF _ _ pq] q assms(3) by blast
    ultimately have "length q \<le> length p + k" using assms(1) q unfolding deep_def by blast
    then show "length q \<le> length (p @ [x]) + m" using m by simp
  qed
  with m show ?thesis by blast
qed

lemma sorter_returns:
  "is_dir fs dst \<Longrightarrow> deep dst fs p k \<Longrightarrow> copy_and_sort (Suc k) env p dst fs \<noteq> None"
proof (induction k arbitrary: fs p)
  case 0
  show ?case
  proof (cases "iterdir env fs p")
    case (Inl e) then show ?thesis by simp
  next
    case (Inr names)
    then have n: "names = children fs p"
      by (auto simp: iterdir_def split: option.splits node.splits if_splits)
    have "for_items 0 env p dst names fs \<noteq> None"
    proof (rule for_items_returns)
      show "is_dir fs dst" by (rule "0.prems"(1))
      show "distinct names" using n by (simp add: children_def)
      show "\<forall>x \<in> set names. pending 0 dst fs (p @ [x])"
        using n children_exists deep_child [OF "0.prems"(2)] by (auto simp: pending_def)
    qed simp
    then show ?thesis using Inr by (auto simp del: for_items.simps split: option.splits)
  qed
next
  case (Suc k)
  show ?case
  proof (cases "iterdir env fs p")
    case (Inl e) then show ?thesis by simp
  next
    case (Inr names)
    then have n: "names = children fs p"
      by (auto simp: iterdir_def split: option.splits node.splits if_splits)
    have "for_items (Suc k) env p dst names fs \<noteq> None"
    proof (rule for_items_returns)
      show "is_dir fs dst" by (rule Suc.prems(1))
      show "distinct names" using n by (simp add: children_def)
      show "\<forall>x \<in> set names. pending (Suc k) dst fs (p @ [x])"
        using n children_exists deep_child [OF Suc.prems(2)] by (auto simp: pending_def)
      show "copy_and_sort (Suc k) env c dst fs \<noteq> None"
        if "is_dir fs dst" "\<exists>m. Suc k = Suc m \<and> deep dst fs c m" for fs c
        using that Suc.IH by auto
    qed
    then show ?thesis using Inr by (auto simp del: for_items.simps split: option.splits)
  qed
qed

text \<open>
  Claim C7: the walk terminates, and its recursion is no deeper than the directory tree:
  with the destination root in place (\<^verbatim>\<open>main\<close> creates it before the walk), a depth of
  one more than the number of directory levels below the source is enough for
  \<^verbatim>\<open>copy_and_sort\<close> to return, whatever the operating system refuses on the way.
\<close>

theorem C7_walk_terminates:
  assumes "is_dir fs dst_root" and "depth_below fs src < n"
  shows "\<exists>fs' tr. copy_and_sort n env src dst_root fs = Some (fs', tr)"
proof -
  from assms(2) obtain k where k: "n = Suc k" "depth_below fs src \<le> k"
    by (cases n) auto
  have "deep dst_root fs src k"
    using deep_depth_below k(2) by (rule deep_mono)
  with assms(1) have "copy_and_sort (Suc k) env src dst_root fs \<noteq> None"
    by (rule sorter_returns)
  then show ?thesis using k(1) by auto
qed

theorem C7_walk_terminates_witness:
  "is_dir demo_fs [''o''] \<and> depth_below demo_fs [''s''] = 1 \<and>
   (\<exists>fs' tr. copy_and_sort 2 allow_all [''s''] [''o''] demo_fs = Some (fs', tr)) \<and>
   copy_and_sort 1 allow_all [''s''] [''o''] demo_fs = None"
proof -
  have h1: "is_dir demo_fs [''o'']" by code_simp
  have h2: "depth_below demo_fs [''s''] = 1" by code_simp
  have h3: "depth_below demo_fs [''s''] < 2" by (simp add: h2)
  have h4: "copy_and_sort 1 allow_all [''s''] [''o''] demo_fs = None" by code_simp
  from C7_walk_terminates [OF h1 h3, of allow_all] h1 h2 h4 show ?thesis by simp
qed

section \<open>The front end\<close>





section \<open>The destination is not walked\<close>








end
